theory Spec2Isabelle
  imports Main "HOL-Library.Word"
begin

section \<open>The greedy I/O scheduler (greedy-iosched.c)\<close>

subsection \<open>Data model\<close>

text \<open>
  The block layer's \<^verbatim>\<open>sector_t\<close> is an unsigned 64-bit sector offset; C's
  \<^verbatim>\<open>int\<close> is a 32-bit two's complement value.
\<close>

type_synonym sector_t = "64 word"
type_synonym c_int = "32 word"

text \<open>
  A \<^verbatim>\<open>struct request\<close> of the block layer, as far as the scheduler reads it:
  \<open>rq_id\<close> is the identity (address) of the object, which is what its embedded
  \<^verbatim>\<open>queuelist\<close> node stands for; \<open>start_sector\<close> is the field
  \<^verbatim>\<open>__sector\<close> that \<^verbatim>\<open>blk_rq_pos\<close> returns; \<open>length_sectors\<close> is what
  \<^verbatim>\<open>blk_rq_sectors\<close> returns, an \<^verbatim>\<open>unsigned int\<close>.
\<close>

record request =
  rq_id :: nat
  start_sector :: sector_t
  length_sectors :: "32 word"

definition blk_rq_pos :: "request \<Rightarrow> sector_t" where
  "blk_rq_pos rq = start_sector rq"

definition blk_rq_sectors :: "request \<Rightarrow> 32 word" where
  "blk_rq_sectors rq = length_sectors rq"

text \<open>
  \<^verbatim>\<open>#define rq_end_sector(rq) (blk_rq_pos(rq) + blk_rq_sectors(rq))\<close>: the sum is
  taken in \<^verbatim>\<open>sector_t\<close>, so it wraps modulo \<open>2 ^ 64\<close>.
\<close>

definition rq_end_sector :: "request \<Rightarrow> sector_t" where
  "rq_end_sector rq = blk_rq_pos rq + ucast (blk_rq_sectors rq)"

text \<open>
  \<^verbatim>\<open>struct greedy_data\<close>. Each \<^verbatim>\<open>struct list_head\<close> is the head of a circular
  doubly linked list threaded through the \<^verbatim>\<open>queuelist\<close> nodes of the requests;
  the model keeps the sequence of requests met when walking from \<^verbatim>\<open>head->next\<close>
  until the head is reached again.
\<close>

record greedy_data =
  higher :: "request list"
  lower :: "request list"
  prev_pos :: sector_t

text \<open>
  The \<^verbatim>\<open>struct request_queue\<close>, as far as the scheduler touches it: the
  elevator's private data and the dispatch list \<^verbatim>\<open>queue_head\<close> that
  \<^verbatim>\<open>elv_dispatch_add_tail\<close> appends to.
\<close>

record request_queue =
  elevator_data :: greedy_data
  queue_head :: "request list"

datatype error = ENOMEM | BUG | Untracked

subsection \<open>The list primitives of \<^verbatim>\<open>linux/list.h\<close>\<close>

text \<open>
  A cursor \<^verbatim>\<open>struct list_head *pos\<close> into a list: either the head of the list
  itself or the node of the entry at an index.
\<close>

datatype cursor = AtHead | AtEntry nat

text \<open>
  \<^verbatim>\<open>list_for_each(pos, head) { if (crosses(entry)) break; }\<close>: the cursor starts at
  \<^verbatim>\<open>head->next\<close> and advances until the test breaks the loop or the cursor is
  the head again. The second argument counts the entries already passed.
\<close>

fun list_for_each_break :: "(request \<Rightarrow> bool) \<Rightarrow> nat \<Rightarrow> request list \<Rightarrow> cursor" where
  "list_for_each_break crosses i [] = AtHead"
| "list_for_each_break crosses i (x # xs) =
     (if crosses x then AtEntry i else list_for_each_break crosses (Suc i) xs)"

text \<open>
  The kernel defines \<^verbatim>\<open>list_add(new, head)\<close> as
  \<^verbatim>\<open>__list_add(new, head, head->next)\<close>, which links \<open>new\<close> between \<open>head\<close> and
  \<open>head->next\<close>: the new node comes immediately \<^emph>\<open>after\<close> the node it is given
  (the insertion before a node is \<^verbatim>\<open>list_add_tail\<close>, which the scheduler does not
  call). After the head of the list that is the front; after the entry at index \<open>i\<close>
  it is index \<open>i + 1\<close>.
\<close>

fun list_add :: "request \<Rightarrow> cursor \<Rightarrow> request list \<Rightarrow> request list" where
  "list_add new AtHead xs = new # xs"
| "list_add new (AtEntry i) xs = take (Suc i) xs @ new # drop (Suc i) xs"

text \<open>
  \<^verbatim>\<open>list_del_init(entry)\<close> unlinks the node from the list it is on, whichever that
  is, and makes it point to itself; a node that is on no list is left as it is.
\<close>

definition list_del_init :: "request \<Rightarrow> request list \<Rightarrow> request list" where
  "list_del_init entry xs = filter (\<lambda>r. rq_id r \<noteq> rq_id entry) xs"

definition list_empty :: "request list \<Rightarrow> bool" where
  "list_empty xs = (xs = [])"

text \<open>
  \<^verbatim>\<open>list_first_entry\<close> is only called on a list that was tested non-empty; on
  an empty list it would return the container of the head, which is no request.
\<close>

fun list_first_entry :: "request list \<Rightarrow> request option" where
  "list_first_entry [] = None"
| "list_first_entry (x # xs) = Some x"

subsection \<open>Insertion\<close>

definition add_to_higher :: "request \<Rightarrow> greedy_data \<Rightarrow> greedy_data" where
  "add_to_higher rq gd =
     (let pos = list_for_each_break (\<lambda>list_rq. blk_rq_pos list_rq > blk_rq_pos rq) 0 (higher gd)
      in gd\<lparr>higher := list_add rq pos (higher gd)\<rparr>)"

definition add_to_lower :: "request \<Rightarrow> greedy_data \<Rightarrow> greedy_data" where
  "add_to_lower rq gd =
     (let pos = list_for_each_break (\<lambda>list_rq. blk_rq_pos list_rq < blk_rq_pos rq) 0 (lower gd)
      in gd\<lparr>lower := list_add rq pos (lower gd)\<rparr>)"

definition greedy_add_request :: "request_queue \<Rightarrow> request \<Rightarrow> request_queue" where
  "greedy_add_request q rq =
     (let gd = elevator_data q
      in if prev_pos gd > blk_rq_pos rq
         then q\<lparr>elevator_data := add_to_lower rq gd\<rparr>
         else q\<lparr>elevator_data := add_to_higher rq gd\<rparr>)"

subsection \<open>Merging\<close>

text \<open>
  \<^verbatim>\<open>greedy_merged_requests\<close> unlinks \<open>next\<close> from whichever of the two queues
  it is on.
\<close>

definition greedy_merged_requests :: "request_queue \<Rightarrow> request \<Rightarrow> request \<Rightarrow> request_queue" where
  "greedy_merged_requests q rq next =
     (let gd = elevator_data q
      in q\<lparr>elevator_data :=
           gd\<lparr>higher := list_del_init next (higher gd),
              lower := list_del_init next (lower gd)\<rparr>\<rparr>)"

subsection \<open>Dispatch\<close>

text \<open>
  The two distances are declared \<^verbatim>\<open>int\<close>: each is the 64-bit difference, which
  wraps, cut down to its low 32 bits and read as a signed value.
\<close>

definition up_dist :: "request \<Rightarrow> greedy_data \<Rightarrow> c_int" where
  "up_dist target gd = ucast (blk_rq_pos target - prev_pos gd)"

definition down_dist :: "request \<Rightarrow> greedy_data \<Rightarrow> c_int" where
  "down_dist lower_rq gd = ucast (prev_pos gd - blk_rq_pos lower_rq)"

text \<open>
  The \<^verbatim>\<open>if\<close> / \<^verbatim>\<open>else if\<close> / \<^verbatim>\<open>else\<close> chain that picks \<^verbatim>\<open>target\<close>;
  \<open>None\<close> is the branch that returns 0.
\<close>

definition dispatch_target :: "greedy_data \<Rightarrow> request option" where
  "dispatch_target gd =
     (if \<not> list_empty (higher gd) then
        (case list_first_entry (higher gd) of
           None \<Rightarrow> None
         | Some target \<Rightarrow>
             if \<not> list_empty (lower gd) then
               (case list_first_entry (lower gd) of
                  None \<Rightarrow> None
                | Some lower_rq \<Rightarrow>
                    if down_dist lower_rq gd <s up_dist target gd then Some lower_rq
                    else Some target)
             else Some target)
      else if \<not> list_empty (lower gd) then list_first_entry (lower gd)
      else None)"

text \<open>
  The tail of \<^verbatim>\<open>greedy_dispatch\<close>: unlink the target, append it to the dispatch
  list, remember where it ends, return 1.
\<close>

definition greedy_dispatch :: "request_queue \<Rightarrow> c_int \<Rightarrow> c_int \<times> request_queue" where
  "greedy_dispatch q force =
     (let gd = elevator_data q
      in case dispatch_target gd of
           None \<Rightarrow> (0, q)
         | Some target \<Rightarrow>
             (1, q\<lparr>elevator_data :=
                     gd\<lparr>higher := list_del_init target (higher gd),
                        lower := list_del_init target (lower gd),
                        prev_pos := rq_end_sector target\<rparr>,
                   queue_head := queue_head q @ [target]\<rparr>))"

subsection \<open>Neighbour queries\<close>

text \<open>
  What a \<^verbatim>\<open>prev\<close> or \<^verbatim>\<open>next\<close> pointer of a queued node points to: the head of
  one of the two queues, or the node of another request.
\<close>

datatype link = HigherHead | LowerHead | Node request

fun find_prev :: "link \<Rightarrow> request \<Rightarrow> request list \<Rightarrow> link option" where
  "find_prev before rq [] = None"
| "find_prev before rq (x # xs) =
     (if rq_id x = rq_id rq then Some before else find_prev (Node x) rq xs)"

fun find_next :: "link \<Rightarrow> request \<Rightarrow> request list \<Rightarrow> link option" where
  "find_next hd_link rq [] = None"
| "find_next hd_link rq (x # xs) =
     (if rq_id x = rq_id rq
      then Some (case xs of [] \<Rightarrow> hd_link | y # ys \<Rightarrow> Node y)
      else find_next hd_link rq xs)"

definition queuelist_prev :: "greedy_data \<Rightarrow> request \<Rightarrow> link option" where
  "queuelist_prev gd rq =
     (case find_prev HigherHead rq (higher gd) of
        Some l \<Rightarrow> Some l
      | None \<Rightarrow> find_prev LowerHead rq (lower gd))"

definition queuelist_next :: "greedy_data \<Rightarrow> request \<Rightarrow> link option" where
  "queuelist_next gd rq =
     (case find_next HigherHead rq (higher gd) of
        Some l \<Rightarrow> Some l
      | None \<Rightarrow> find_next LowerHead rq (lower gd))"

text \<open>
  \<^verbatim>\<open>greedy_former_request\<close> and \<^verbatim>\<open>greedy_latter_request\<close> return
  \<^verbatim>\<open>NULL\<close> when the neighbouring pointer is the head of either queue, and the
  request that contains the neighbouring node otherwise. Both read the queue only; the
  queue is returned beside the result so that this can be stated. For a request that is
  on neither queue the source follows a pointer that does not belong to the scheduler:
  that is the error \<open>Untracked\<close>.
\<close>

definition greedy_former_request ::
  "request_queue \<Rightarrow> request \<Rightarrow> (error + request option) \<times> request_queue" where
  "greedy_former_request q rq =
     (case queuelist_prev (elevator_data q) rq of
        None \<Rightarrow> (Inl Untracked, q)
      | Some HigherHead \<Rightarrow> (Inr None, q)
      | Some LowerHead \<Rightarrow> (Inr None, q)
      | Some (Node former) \<Rightarrow> (Inr (Some former), q))"

definition greedy_latter_request ::
  "request_queue \<Rightarrow> request \<Rightarrow> (error + request option) \<times> request_queue" where
  "greedy_latter_request q rq =
     (case queuelist_next (elevator_data q) rq of
        None \<Rightarrow> (Inl Untracked, q)
      | Some HigherHead \<Rightarrow> (Inr None, q)
      | Some LowerHead \<Rightarrow> (Inr None, q)
      | Some (Node latter) \<Rightarrow> (Inr (Some latter), q))"

subsection \<open>Creation and teardown\<close>

text \<open>
  \<^verbatim>\<open>greedy_init_queue\<close>: the two flags say whether \<^verbatim>\<open>elevator_alloc\<close> and
  \<^verbatim>\<open>kmalloc_node\<close> returned memory.
\<close>

definition greedy_init_queue :: "request_queue \<Rightarrow> bool \<Rightarrow> bool \<Rightarrow> error + request_queue" where
  "greedy_init_queue q eq_allocated gd_allocated =
     (if \<not> eq_allocated then Inl ENOMEM
      else if \<not> gd_allocated then Inl ENOMEM
      else Inr (q\<lparr>elevator_data := \<lparr>higher = [], lower = [], prev_pos = 0\<rparr>\<rparr>))"

text \<open>\<^verbatim>\<open>greedy_exit_queue\<close>: each \<^verbatim>\<open>BUG_ON\<close> that fires stops the kernel.\<close>

definition greedy_exit_queue :: "greedy_data \<Rightarrow> error + unit" where
  "greedy_exit_queue gd =
     (if \<not> list_empty (higher gd) then Inl BUG
      else if \<not> list_empty (lower gd) then Inl BUG
      else Inr ())"

subsection \<open>Calls of the host and derived notions\<close>

text \<open>The three calls that change the scheduler, and the state after one of them.\<close>

datatype call = Insert request | Dispatch c_int | MergeRemove request request

fun step :: "request_queue \<Rightarrow> call \<Rightarrow> request_queue" where
  "step q (Insert rq) = greedy_add_request q rq"
| "step q (Dispatch force) = snd (greedy_dispatch q force)"
| "step q (MergeRemove rq next) = greedy_merged_requests q rq next"

text \<open>
  The state that a successful \<open>greedy_init_queue\<close> leaves on a request queue with an
  empty dispatch list.
\<close>

definition fresh_queue :: request_queue where
  "fresh_queue =
     \<lparr>elevator_data = \<lparr>higher = [], lower = [], prev_pos = 0\<rparr>, queue_head = []\<rparr>"

text \<open>The absolute seek distance between a position and the start of a request.\<close>

definition seek_distance :: "sector_t \<Rightarrow> request \<Rightarrow> int" where
  "seek_distance pos rq = \<bar>uint (blk_rq_pos rq) - uint pos\<bar>"

text \<open>
  A node is linked into at most one place: no request identity occurs twice on the two
  queues. Every intrusive list satisfies this.
\<close>

definition well_linked :: "greedy_data \<Rightarrow> bool" where
  "well_linked gd = distinct (map rq_id (higher gd @ lower gd))"

text \<open>The two orders that the names of the queues promise.\<close>

definition ascending :: "request list \<Rightarrow> bool" where
  "ascending xs = sorted_wrt (\<lambda>a b. blk_rq_pos a \<le> blk_rq_pos b) xs"

definition descending :: "request list \<Rightarrow> bool" where
  "descending xs = sorted_wrt (\<lambda>a b. blk_rq_pos a \<ge> blk_rq_pos b) xs"

text \<open>
  The selection rule in the words of the specification, over the integers: with
  \<open>up_distance\<close> the start of the Higher head minus the last position and
  \<open>down_distance\<close> the last position minus the start of the Lower head, the Lower
  head is selected only if \<open>up_distance > down_distance\<close>.
\<close>

definition spec_selection :: "sector_t \<Rightarrow> request \<Rightarrow> request \<Rightarrow> request" where
  "spec_selection pos h l =
     (if uint (blk_rq_pos h) - uint pos > uint pos - uint (blk_rq_pos l) then l else h)"

text \<open>
  \<open>nearest_head gd t\<close>: both queues are non-empty, \<open>t\<close> is one of the two heads, and
  no head is nearer to the last position than \<open>t\<close>.
\<close>

definition nearest_head :: "greedy_data \<Rightarrow> request \<Rightarrow> bool" where
  "nearest_head gd t =
     (case (higher gd, lower gd) of
        (h # hs, l # ls) \<Rightarrow>
          (t = h \<or> t = l)
          \<and> seek_distance (prev_pos gd) t \<le> seek_distance (prev_pos gd) h
          \<and> seek_distance (prev_pos gd) t \<le> seek_distance (prev_pos gd) l
      | _ \<Rightarrow> False)"

subsection \<open>Example requests and states\<close>

text \<open>A request of length 1 with the given identity and start.\<close>

definition rq_at :: "nat \<Rightarrow> sector_t \<Rightarrow> request" where
  "rq_at i s = \<lparr>rq_id = i, start_sector = s, length_sectors = 1\<rparr>"

text \<open>An idle scheduler whose last dispatch ended at the given position.\<close>

definition idle_at :: "sector_t \<Rightarrow> request_queue" where
  "idle_at p = \<lparr>elevator_data = \<lparr>higher = [], lower = [], prev_pos = p\<rparr>, queue_head = []\<rparr>"

text \<open>Four insertions at 100, 50, 500 and 10 into a fresh scheduler.\<close>

definition scenario_a :: request_queue where
  "scenario_a =
     foldl step fresh_queue
       [Insert (rq_at 1 100), Insert (rq_at 2 50), Insert (rq_at 3 500), Insert (rq_at 4 10)]"

text \<open>
  A run in which every insertion meets an empty queue, and which leaves the head of
  the Higher queue (start 150) below the last position (199): the request at 150 was
  queued when the last position was 101, and the request of length 100 at 99, dispatched
  next, moved the last position past it.
\<close>

definition wrong_side :: request_queue where
  "wrong_side =
     foldl step fresh_queue
       [Insert (rq_at 1 100), Dispatch 0,
        Insert (rq_at 2 150),
        Insert \<lparr>rq_id = 3, start_sector = 99, length_sectors = 100\<rparr>, Dispatch 0,
        Insert (rq_at 4 190)]"

section \<open>Supporting facts\<close>

lemmas greedy_defs = blk_rq_pos_def blk_rq_sectors_def rq_end_sector_def list_del_init_def
  list_empty_def add_to_higher_def add_to_lower_def greedy_add_request_def
  greedy_merged_requests_def up_dist_def down_dist_def dispatch_target_def greedy_dispatch_def

lemma init_queue_fresh:
  "greedy_init_queue \<lparr>elevator_data = gd, queue_head = []\<rparr> True True = Inr fresh_queue"
  by (simp add: greedy_init_queue_def fresh_queue_def)

lemma init_queue_no_memory:
  "\<not> (eq_allocated \<and> gd_allocated) \<Longrightarrow> greedy_init_queue q eq_allocated gd_allocated = Inl ENOMEM"
  by (auto simp: greedy_init_queue_def)

subsection \<open>Facts about the list primitives\<close>

lemma set_list_add: "set (list_add new pos xs) = insert new (set xs)"
proof (cases pos)
  case AtHead
  then show ?thesis by simp
next
  case (AtEntry i)
  have "set (take (Suc i) xs) \<union> set (drop (Suc i) xs) = set xs"
    by (metis append_take_drop_id set_append)
  with AtEntry show ?thesis by auto
qed

lemma distinct_insert_between:
  assumes "distinct ys" "y \<notin> set ys"
  shows "distinct (take n ys @ y # drop n ys)"
proof -
  have "distinct (take n ys @ drop n ys)" using assms by simp
  then have "distinct (take n ys)" "distinct (drop n ys)"
    "set (take n ys) \<inter> set (drop n ys) = {}"
    unfolding distinct_append by blast+
  moreover have "y \<notin> set (take n ys)" "y \<notin> set (drop n ys)"
    using assms by (auto dest: in_set_takeD in_set_dropD)
  ultimately show ?thesis by auto
qed

lemma distinct_ids_list_add:
  assumes "distinct (map rq_id xs)" "rq_id new \<notin> rq_id ` set xs"
  shows "distinct (map rq_id (list_add new pos xs))"
proof (cases pos)
  case AtHead
  with assms show ?thesis by simp
next
  case (AtEntry i)
  have "distinct (take (Suc i) (map rq_id xs) @ rq_id new # drop (Suc i) (map rq_id xs))"
    using assms by (intro distinct_insert_between) auto
  with AtEntry show ?thesis by (simp add: take_map drop_map)
qed

lemma set_list_del_init: "set (list_del_init entry xs) = {r \<in> set xs. rq_id r \<noteq> rq_id entry}"
  by (auto simp: list_del_init_def)

lemma list_del_init_head:
  assumes "distinct (map rq_id (x # xs))"
  shows "list_del_init x (x # xs) = xs"
proof -
  have "\<forall>r \<in> set xs. rq_id r \<noteq> rq_id x" using assms by (auto simp: image_iff)
  then have "filter (\<lambda>r. rq_id r \<noteq> rq_id x) xs = xs" by (simp add: filter_id_conv)
  then show ?thesis by (simp add: list_del_init_def)
qed

lemma list_del_init_absent:
  assumes "rq_id x \<notin> rq_id ` set xs"
  shows "list_del_init x xs = xs"
  using assms by (auto simp: list_del_init_def filter_id_conv image_iff)

lemma dispatch_target_cases:
  "dispatch_target gd =
     (case (higher gd, lower gd) of
        ([], []) \<Rightarrow> None
      | ([], l # ls) \<Rightarrow> Some l
      | (h # hs, []) \<Rightarrow> Some h
      | (h # hs, l # ls) \<Rightarrow> Some (if down_dist l gd <s up_dist h gd then l else h))"
  by (simp add: dispatch_target_def list_empty_def split: list.splits)

lemma dispatch_target_is_head:
  assumes "dispatch_target gd = Some t"
  shows "(\<exists>hs. higher gd = t # hs) \<or> (\<exists>ls. lower gd = t # ls)"
  using assms by (auto simp: dispatch_target_cases split: list.splits if_splits)

subsection \<open>Effects of the operations on the fields\<close>

lemma higher_add_request:
  "higher (elevator_data (greedy_add_request q rq)) =
     (if blk_rq_pos rq < prev_pos (elevator_data q) then higher (elevator_data q)
      else list_add rq
             (list_for_each_break (\<lambda>list_rq. blk_rq_pos list_rq > blk_rq_pos rq) 0
                (higher (elevator_data q)))
             (higher (elevator_data q)))"
  by (simp add: greedy_add_request_def add_to_higher_def add_to_lower_def Let_def)

lemma lower_add_request:
  "lower (elevator_data (greedy_add_request q rq)) =
     (if blk_rq_pos rq < prev_pos (elevator_data q)
      then list_add rq
             (list_for_each_break (\<lambda>list_rq. blk_rq_pos list_rq < blk_rq_pos rq) 0
                (lower (elevator_data q)))
             (lower (elevator_data q))
      else lower (elevator_data q))"
  by (simp add: greedy_add_request_def add_to_higher_def add_to_lower_def Let_def)

lemma prev_pos_add_request:
  "prev_pos (elevator_data (greedy_add_request q rq)) = prev_pos (elevator_data q)"
  by (simp add: greedy_add_request_def add_to_higher_def add_to_lower_def Let_def)

lemma queue_head_add_request:
  "queue_head (greedy_add_request q rq) = queue_head q"
  by (simp add: greedy_add_request_def Let_def)

lemma greedy_dispatch_None:
  "dispatch_target (elevator_data q) = None \<Longrightarrow> greedy_dispatch q force = (0, q)"
  by (simp add: greedy_dispatch_def)

lemma greedy_dispatch_Some:
  "dispatch_target (elevator_data q) = Some t \<Longrightarrow>
   greedy_dispatch q force =
     (1, q\<lparr>elevator_data :=
             (elevator_data q)\<lparr>higher := list_del_init t (higher (elevator_data q)),
                               lower := list_del_init t (lower (elevator_data q)),
                               prev_pos := rq_end_sector t\<rparr>,
           queue_head := queue_head q @ [t]\<rparr>)"
  by (simp add: greedy_dispatch_def Let_def)

lemma set_higher_step:
  assumes "r \<in> set (higher (elevator_data (step q c)))"
  shows "r \<in> set (higher (elevator_data q))
         \<or> (c = Insert r \<and> \<not> blk_rq_pos r < prev_pos (elevator_data q))"
proof (cases c)
  case (Insert rq)
  with assms show ?thesis
    by (auto simp: higher_add_request set_list_add split: if_splits)
next
  case (Dispatch force)
  show ?thesis
  proof (cases "dispatch_target (elevator_data q)")
    case None
    with assms Dispatch show ?thesis by (simp add: greedy_dispatch_None)
  next
    case (Some t)
    with assms Dispatch show ?thesis
      by (simp add: greedy_dispatch_Some set_list_del_init)
  qed
next
  case (MergeRemove rq nxt)
  with assms show ?thesis
    by (simp add: greedy_merged_requests_def Let_def set_list_del_init)
qed

lemma set_lower_step:
  assumes "r \<in> set (lower (elevator_data (step q c)))"
  shows "r \<in> set (lower (elevator_data q))
         \<or> (c = Insert r \<and> blk_rq_pos r < prev_pos (elevator_data q))"
proof (cases c)
  case (Insert rq)
  with assms show ?thesis
    by (auto simp: lower_add_request set_list_add split: if_splits)
next
  case (Dispatch force)
  show ?thesis
  proof (cases "dispatch_target (elevator_data q)")
    case None
    with assms Dispatch show ?thesis by (simp add: greedy_dispatch_None)
  next
    case (Some t)
    with assms Dispatch show ?thesis
      by (simp add: greedy_dispatch_Some set_list_del_init)
  qed
next
  case (MergeRemove rq nxt)
  with assms show ?thesis
    by (simp add: greedy_merged_requests_def Let_def set_list_del_init)
qed

lemma dispatch_keeps_others:
  assumes "\<forall>t. dispatch_target (elevator_data q) = Some t \<longrightarrow> rq_id t \<noteq> rq_id r"
  shows "(r \<in> set (higher (elevator_data q)) \<longrightarrow> r \<in> set (higher (elevator_data (step q (Dispatch force)))))
       \<and> (r \<in> set (lower (elevator_data q)) \<longrightarrow> r \<in> set (lower (elevator_data (step q (Dispatch force)))))"
proof (cases "dispatch_target (elevator_data q)")
  case None
  then show ?thesis by (simp add: greedy_dispatch_None)
next
  case (Some t)
  with assms have "rq_id r \<noteq> rq_id t" by auto
  with Some show ?thesis by (simp add: greedy_dispatch_Some set_list_del_init)
qed

subsection \<open>The truncated distances\<close>

lemma take_bit_32_mod_64: "take_bit 32 ((k::int) mod 2 ^ 64) = take_bit 32 k"
proof -
  have "(2::int) ^ 32 dvd 2 ^ 64" by (rule le_imp_power_dvd) simp
  then show ?thesis unfolding take_bit_eq_mod by (rule mod_mod_cancel)
qed

lemma ucast_diff_of_int: "(ucast (a - b :: 64 word) :: 32 word) = word_of_int (uint a - uint b)"
proof -
  have "(ucast (a - b) :: 32 word) = word_of_int (uint (a - b))"
    by (rule ucast_eq)
  also have "uint (a - b) = (uint a - uint b) mod 2 ^ 64"
    by (simp only: uint_word_ariths len_of_numeral_defs) simp
  also have "(word_of_int ((uint a - uint b) mod 2 ^ 64) :: 32 word) = word_of_int (uint a - uint b)"
    unfolding word_of_int_eq_iff using take_bit_32_mod_64 by simp
  finally show ?thesis .
qed

lemma sint_trunc_diff:
  assumes "- (2 ^ 31) \<le> uint a - uint b" "uint a - uint b < 2 ^ 31"
  shows "sint (ucast (a - b :: 64 word) :: 32 word) = uint a - uint b"
proof -
  have "sint (word_of_int (uint a - uint b) :: 32 word) = signed_take_bit 31 (uint a - uint b)"
    unfolding sint_sbintrunc' by simp
  also have "\<dots> = uint a - uint b"
    using assms by (simp add: signed_take_bit_int_eq_self)
  finally show ?thesis unfolding ucast_diff_of_int .
qed

lemma unat_ucast_32_64: "unat (ucast (n :: 32 word) :: 64 word) = unat n"
proof -
  have "unat n < 2 ^ 32" using unsigned_less [of n] by simp
  then have "unat n < 2 ^ 64" by simp
  then show ?thesis by (simp add: unsigned_ucast_eq take_bit_nat_eq_self)
qed

lemma unat_rq_end_sector:
  "unat (rq_end_sector rq) = (unat (start_sector rq) + unat (length_sectors rq)) mod 2 ^ 64"
  by (simp add: rq_end_sector_def blk_rq_pos_def blk_rq_sectors_def unat_word_ariths
      unat_ucast_32_64)

subsection \<open>The neighbour queries\<close>

lemma find_prev_absent:
  "rq_id rq \<notin> rq_id ` set xs \<Longrightarrow> find_prev before rq xs = None"
  by (induction xs arbitrary: before) (auto simp: image_iff)

lemma find_next_absent:
  "rq_id rq \<notin> rq_id ` set xs \<Longrightarrow> find_next hd_link rq xs = None"
  by (induction xs) (auto simp: image_iff)

lemma find_prev_at:
  assumes "distinct (map rq_id xs)" "i < length xs" "rq_id rq = rq_id (xs ! i)"
  shows "find_prev before rq xs = Some (if i = 0 then before else Node (xs ! (i - 1)))"
  using assms
proof (induction xs arbitrary: i before)
  case Nil
  then show ?case by simp
next
  case (Cons x xs)
  show ?case
  proof (cases i)
    case 0
    with Cons.prems show ?thesis by simp
  next
    case (Suc j)
    with Cons.prems have j: "j < length xs" "rq_id rq = rq_id (xs ! j)" by simp_all
    then have "rq_id rq \<in> rq_id ` set xs" by (metis imageI nth_mem)
    with Cons.prems have ne: "rq_id x \<noteq> rq_id rq" by auto
    from Cons.prems have "distinct (map rq_id xs)" by simp
    from Cons.IH [OF this j] have
      "find_prev (Node x) rq xs = Some (if j = 0 then Node x else Node (xs ! (j - 1)))" .
    with ne Suc show ?thesis by (cases j) simp_all
  qed
qed

lemma find_next_at:
  assumes "distinct (map rq_id xs)" "i < length xs" "rq_id rq = rq_id (xs ! i)"
  shows "find_next hd_link rq xs = Some (if Suc i = length xs then hd_link else Node (xs ! Suc i))"
  using assms
proof (induction xs arbitrary: i)
  case Nil
  then show ?case by simp
next
  case (Cons x xs)
  show ?case
  proof (cases i)
    case 0
    with Cons.prems show ?thesis by (cases xs) simp_all
  next
    case (Suc j)
    with Cons.prems have j: "j < length xs" "rq_id rq = rq_id (xs ! j)" by simp_all
    then have "rq_id rq \<in> rq_id ` set xs" by (metis imageI nth_mem)
    with Cons.prems have ne: "rq_id x \<noteq> rq_id rq" by auto
    from Cons.prems have "distinct (map rq_id xs)" by simp
    from Cons.IH [OF this j] have
      "find_next hd_link rq xs = Some (if Suc j = length xs then hd_link else Node (xs ! Suc j))" .
    with ne Suc show ?thesis by simp
  qed
qed

lemma former_in_higher:
  assumes "distinct (map rq_id (higher (elevator_data q)))"
    and "i < length (higher (elevator_data q))"
    and "rq_id rq = rq_id (higher (elevator_data q) ! i)"
  shows "greedy_former_request q rq =
           (Inr (if i = 0 then None else Some (higher (elevator_data q) ! (i - 1))), q)"
  using find_prev_at [OF assms, of HigherHead]
  by (simp add: greedy_former_request_def queuelist_prev_def)

lemma latter_in_higher:
  assumes "distinct (map rq_id (higher (elevator_data q)))"
    and "i < length (higher (elevator_data q))"
    and "rq_id rq = rq_id (higher (elevator_data q) ! i)"
  shows "greedy_latter_request q rq =
           (Inr (if Suc i = length (higher (elevator_data q)) then None
                 else Some (higher (elevator_data q) ! Suc i)), q)"
  using find_next_at [OF assms, of HigherHead]
  by (simp add: greedy_latter_request_def queuelist_next_def)

lemma former_in_lower:
  assumes "distinct (map rq_id (lower (elevator_data q)))"
    and "rq_id rq \<notin> rq_id ` set (higher (elevator_data q))"
    and "i < length (lower (elevator_data q))"
    and "rq_id rq = rq_id (lower (elevator_data q) ! i)"
  shows "greedy_former_request q rq =
           (Inr (if i = 0 then None else Some (lower (elevator_data q) ! (i - 1))), q)"
  using find_prev_at [OF assms(1,3,4), of LowerHead] find_prev_absent [OF assms(2), of HigherHead]
  by (simp add: greedy_former_request_def queuelist_prev_def)

lemma latter_in_lower:
  assumes "distinct (map rq_id (lower (elevator_data q)))"
    and "rq_id rq \<notin> rq_id ` set (higher (elevator_data q))"
    and "i < length (lower (elevator_data q))"
    and "rq_id rq = rq_id (lower (elevator_data q) ! i)"
  shows "greedy_latter_request q rq =
           (Inr (if Suc i = length (lower (elevator_data q)) then None
                 else Some (lower (elevator_data q) ! Suc i)), q)"
  using find_next_at [OF assms(1,3,4), of LowerHead] find_next_absent [OF assms(2), of HigherHead]
  by (simp add: greedy_latter_request_def queuelist_next_def)

lemma snd_former: "snd (greedy_former_request q rq) = q"
  by (simp add: greedy_former_request_def split: option.split link.split)

lemma snd_latter: "snd (greedy_latter_request q rq) = q"
  by (simp add: greedy_latter_request_def split: option.split link.split)

subsection \<open>Selection when the distances fit\<close>

lemma signed_distances_in_range:
  assumes "- (2 ^ 31) \<le> uint (blk_rq_pos h) - uint (prev_pos gd)"
    and "uint (blk_rq_pos h) - uint (prev_pos gd) < 2 ^ 31"
    and "- (2 ^ 31) \<le> uint (prev_pos gd) - uint (blk_rq_pos l)"
    and "uint (prev_pos gd) - uint (blk_rq_pos l) < 2 ^ 31"
  shows "down_dist l gd <s up_dist h gd
         \<longleftrightarrow> uint (prev_pos gd) - uint (blk_rq_pos l) < uint (blk_rq_pos h) - uint (prev_pos gd)"
  unfolding word_sless_alt up_dist_def down_dist_def
  using assms by (simp only: sint_trunc_diff)

lemma nearest_when_between:
  assumes "higher gd = h # hs" "lower gd = l # ls"
    and "blk_rq_pos l \<le> prev_pos gd" "prev_pos gd \<le> blk_rq_pos h"
  shows "nearest_head gd (spec_selection (prev_pos gd) h l)"
proof -
  from assms(3,4) have "uint (blk_rq_pos l) \<le> uint (prev_pos gd)"
    "uint (prev_pos gd) \<le> uint (blk_rq_pos h)"
    by (simp_all add: word_le_def)
  with assms(1,2) show ?thesis
    by (simp add: nearest_head_def spec_selection_def seek_distance_def)
qed

subsection \<open>The invariant of the links\<close>

lemma well_linked_fresh: "well_linked (elevator_data fresh_queue)"
  by (simp add: well_linked_def fresh_queue_def)

lemma distinct_ids_list_del_init:
  "distinct (map rq_id xs) \<Longrightarrow> distinct (map rq_id (list_del_init entry xs))"
  by (simp add: list_del_init_def distinct_map_filter)

lemma well_linked_parts:
  "well_linked gd \<longleftrightarrow>
     distinct (map rq_id (higher gd)) \<and> distinct (map rq_id (lower gd))
     \<and> rq_id ` set (higher gd) \<inter> rq_id ` set (lower gd) = {}"
  by (simp add: well_linked_def)

lemma well_linked_add_request:
  assumes "well_linked (elevator_data q)"
    and "rq_id rq \<notin> rq_id ` set (higher (elevator_data q))"
    and "rq_id rq \<notin> rq_id ` set (lower (elevator_data q))"
  shows "well_linked (elevator_data (greedy_add_request q rq))"
  using assms
  by (auto simp: well_linked_parts higher_add_request lower_add_request set_list_add
      distinct_ids_list_add)

lemma well_linked_del:
  assumes "well_linked gd"
  shows "well_linked (gd\<lparr>higher := list_del_init t (higher gd),
                         lower := list_del_init t (lower gd), prev_pos := p\<rparr>)"
  using assms
  by (auto simp: well_linked_parts distinct_ids_list_del_init set_list_del_init)

lemma well_linked_step:
  assumes "well_linked (elevator_data q)"
    and "\<And>rq. c = Insert rq \<Longrightarrow>
           rq_id rq \<notin> rq_id ` set (higher (elevator_data q))
           \<and> rq_id rq \<notin> rq_id ` set (lower (elevator_data q))"
  shows "well_linked (elevator_data (step q c))"
proof (cases c)
  case (Insert rq)
  with assms show ?thesis by (simp add: well_linked_add_request)
next
  case (Dispatch force)
  show ?thesis
  proof (cases "dispatch_target (elevator_data q)")
    case None
    with assms Dispatch show ?thesis by (simp add: greedy_dispatch_None)
  next
    case (Some t)
    with Dispatch well_linked_del [OF assms(1), where t = t and p = "rq_end_sector t"] show ?thesis
      by (simp add: greedy_dispatch_Some)
  qed
next
  case (MergeRemove rq nxt)
  with well_linked_del [OF assms(1), where t = nxt and p = "prev_pos (elevator_data q)"] show ?thesis
    by (simp add: greedy_merged_requests_def Let_def)
qed

text \<open>Under the invariant, Dispatch takes exactly the head it selected off its queue.\<close>

lemma dispatch_removes_head:
  assumes "well_linked (elevator_data q)" and "dispatch_target (elevator_data q) = Some t"
  shows "(higher (elevator_data q) = t # higher (elevator_data (step q (Dispatch force)))
          \<and> lower (elevator_data (step q (Dispatch force))) = lower (elevator_data q))
       \<or> (lower (elevator_data q) = t # lower (elevator_data (step q (Dispatch force)))
          \<and> higher (elevator_data (step q (Dispatch force))) = higher (elevator_data q))"
proof -
  from assms(1) have dh: "distinct (map rq_id (higher (elevator_data q)))"
    and dl: "distinct (map rq_id (lower (elevator_data q)))"
    and disj: "rq_id ` set (higher (elevator_data q)) \<inter> rq_id ` set (lower (elevator_data q)) = {}"
    by (simp_all add: well_linked_parts)
  from dispatch_target_is_head [OF assms(2)] show ?thesis
  proof
    assume "\<exists>hs. higher (elevator_data q) = t # hs"
    then obtain hs where hs: "higher (elevator_data q) = t # hs" ..
    with disj have "rq_id t \<notin> rq_id ` set (lower (elevator_data q))" by auto
    then have "list_del_init t (lower (elevator_data q)) = lower (elevator_data q)"
      by (rule list_del_init_absent)
    moreover from dh hs have "list_del_init t (higher (elevator_data q)) = hs"
      by (simp add: list_del_init_head)
    ultimately show ?thesis using hs assms(2) by (simp add: greedy_dispatch_Some)
  next
    assume "\<exists>ls. lower (elevator_data q) = t # ls"
    then obtain ls where ls: "lower (elevator_data q) = t # ls" ..
    with disj have "rq_id t \<notin> rq_id ` set (higher (elevator_data q))" by auto
    then have "list_del_init t (higher (elevator_data q)) = higher (elevator_data q)"
      by (rule list_del_init_absent)
    moreover from dl ls have "list_del_init t (lower (elevator_data q)) = ls"
      by (simp add: list_del_init_head)
    ultimately show ?thesis using ls assms(2) by (simp add: greedy_dispatch_Some)
  qed
qed

section \<open>The claims\<close>

text \<open>
  C1. After any sequence of Insert calls on a fresh scheduler the Higher queue is
  non-decreasing and the Lower queue non-increasing by start sector, and entries with
  equal start sector stay in arrival order. The source does not keep this: the scan
  stops at the first entry that crosses the new key, and \<^verbatim>\<open>list_add\<close> then links
  the new request \<^emph>\<open>after\<close> that entry (or, when no entry crosses, after the head,
  which is the front). Inserting 100 and then 50 leaves the Higher queue as 100, 50;
  inserting 50 and then 70 below a last position of 100 leaves the Lower queue as
  50, 70; two requests at sector 10 end up in the reverse of their arrival order.
\<close>

theorem insert_leaves_queues_unordered:
  "higher (elevator_data (foldl step fresh_queue [Insert (rq_at 1 100), Insert (rq_at 2 50)]))
     = [rq_at 1 100, rq_at 2 50]
   \<and> \<not> ascending
         (higher (elevator_data (foldl step fresh_queue [Insert (rq_at 1 100), Insert (rq_at 2 50)])))
   \<and> lower (elevator_data (foldl step (idle_at 100) [Insert (rq_at 1 50), Insert (rq_at 2 70)]))
     = [rq_at 1 50, rq_at 2 70]
   \<and> \<not> descending
         (lower (elevator_data (foldl step (idle_at 100) [Insert (rq_at 1 50), Insert (rq_at 2 70)])))
   \<and> higher (elevator_data (foldl step fresh_queue [Insert (rq_at 1 10), Insert (rq_at 2 10)]))
     = [rq_at 2 10, rq_at 1 10]"
  by (simp add: greedy_defs fresh_queue_def idle_at_def rq_at_def ascending_def descending_def)

text \<open>
  C2. With both queues non-empty, Dispatch selects the head that minimises the absolute
  seek distance, by comparing \<open>up_distance\<close> with \<open>down_distance\<close>. The comparison is
  between signed differences, so a Higher head that lies below the last position has a
  negative \<open>up_distance\<close> and is selected however near the Lower head is: in the state
  \<open>wrong_side\<close> the head at 150 (49 away) is selected, not the head at 190 (9 away).
\<close>

theorem dispatch_not_nearest_counterexample:
  "elevator_data wrong_side = \<lparr>higher = [rq_at 2 150], lower = [rq_at 4 190], prev_pos = 199\<rparr>
   \<and> dispatch_target (elevator_data wrong_side) = Some (rq_at 2 150)
   \<and> seek_distance 199 (rq_at 2 150) = 49
   \<and> seek_distance 199 (rq_at 4 190) = 9
   \<and> \<not> nearest_head (elevator_data wrong_side) (rq_at 2 150)"
  by (simp add: wrong_side_def fresh_queue_def rq_at_def greedy_defs word_sless_alt
      nearest_head_def seek_distance_def)

text \<open>
  C2, as amended. With both queues non-empty and both differences, taken over the
  integers, inside the range of a signed 32-bit value, Dispatch selects the Lower head
  if and only if \<open>up_distance > down_distance\<close> and the Higher head otherwise, equal
  distances included. When moreover the Lower head starts at or below the last position
  and the Higher head at or above it, the selected head is a nearest one.
\<close>

theorem dispatch_selection_in_range:
  assumes "higher (elevator_data q) = h # hs" and "lower (elevator_data q) = l # ls"
    and "- (2 ^ 31) \<le> uint (blk_rq_pos h) - uint (prev_pos (elevator_data q))"
    and "uint (blk_rq_pos h) - uint (prev_pos (elevator_data q)) < 2 ^ 31"
    and "- (2 ^ 31) \<le> uint (prev_pos (elevator_data q)) - uint (blk_rq_pos l)"
    and "uint (prev_pos (elevator_data q)) - uint (blk_rq_pos l) < 2 ^ 31"
  shows "dispatch_target (elevator_data q) = Some (spec_selection (prev_pos (elevator_data q)) h l)
       \<and> fst (greedy_dispatch q force) = 1
       \<and> queue_head (snd (greedy_dispatch q force))
           = queue_head q @ [spec_selection (prev_pos (elevator_data q)) h l]
       \<and> (blk_rq_pos l \<le> prev_pos (elevator_data q) \<and> prev_pos (elevator_data q) \<le> blk_rq_pos h
            \<longrightarrow> nearest_head (elevator_data q) (spec_selection (prev_pos (elevator_data q)) h l))"
proof -
  have t: "dispatch_target (elevator_data q) = Some (spec_selection (prev_pos (elevator_data q)) h l)"
    using assms(1,2) signed_distances_in_range [OF assms(3-6)]
    by (simp add: dispatch_target_cases spec_selection_def)
  then show ?thesis
    using nearest_when_between [OF assms(1,2)]
    by (simp add: greedy_dispatch_Some)
qed

theorem dispatch_selection_in_range_witness:
  "higher (elevator_data (foldl step (idle_at 50) [Insert (rq_at 1 10), Insert (rq_at 2 80)]))
     = [rq_at 2 80]
   \<and> lower (elevator_data (foldl step (idle_at 50) [Insert (rq_at 1 10), Insert (rq_at 2 80)]))
     = [rq_at 1 10]
   \<and> dispatch_target
        (elevator_data (foldl step (idle_at 50) [Insert (rq_at 1 10), Insert (rq_at 2 80)]))
     = Some (rq_at 2 80)
   \<and> fst (greedy_dispatch (foldl step (idle_at 50) [Insert (rq_at 1 10), Insert (rq_at 2 80)]) 0) = 1
   \<and> nearest_head
        (elevator_data (foldl step (idle_at 50) [Insert (rq_at 1 10), Insert (rq_at 2 80)]))
        (rq_at 2 80)"
  using dispatch_selection_in_range
    [of "foldl step (idle_at 50) [Insert (rq_at 1 10), Insert (rq_at 2 80)]"
        "rq_at 2 80" "[]" "rq_at 1 10" "[]" 0]
  by (simp add: idle_at_def rq_at_def greedy_defs spec_selection_def)

text \<open>
  C3. Scenario A: 100, 50, 500 and 10 inserted into a fresh scheduler all go to the
  Higher queue, which should then read 10, 50, 100, 500 and be dispatched in that
  order, ending at 501. All four do go to the Higher queue, but since each insertion
  links the new request after the entry it should precede, the queue reads
  500, 10, 100, 50, the four dispatches return the requests in that order, and the last
  position ends at 51.
\<close>

theorem scenario_a_as_coded:
  "map blk_rq_pos (higher (elevator_data scenario_a)) = [500, 10, 100, 50]
   \<and> lower (elevator_data scenario_a) = []
   \<and> map blk_rq_pos
        (queue_head (foldl step scenario_a [Dispatch 0, Dispatch 0, Dispatch 0, Dispatch 0]))
     = [500, 10, 100, 50]
   \<and> prev_pos
        (elevator_data (foldl step scenario_a [Dispatch 0, Dispatch 0, Dispatch 0, Dispatch 0]))
     = 51"
  by (simp add: greedy_defs fresh_queue_def scenario_a_def rq_at_def)

text \<open>
  C4. Insert decides the queue once, from the last position at that instant: Lower if
  the start sector is below it, Higher otherwise. Nothing re-evaluates the decision:
  after any call, a member of a queue was a member of the same queue before the call,
  or is the request just inserted and classified into it; and a Dispatch, which is what
  moves the last position, leaves every request other than the dispatched one on its
  queue.
\<close>

theorem membership_decided_at_insert:
  "(blk_rq_pos rq < prev_pos (elevator_data q) \<longrightarrow>
      set (lower (elevator_data (greedy_add_request q rq))) = insert rq (set (lower (elevator_data q)))
      \<and> higher (elevator_data (greedy_add_request q rq)) = higher (elevator_data q))
   \<and> (\<not> blk_rq_pos rq < prev_pos (elevator_data q) \<longrightarrow>
      set (higher (elevator_data (greedy_add_request q rq))) = insert rq (set (higher (elevator_data q)))
      \<and> lower (elevator_data (greedy_add_request q rq)) = lower (elevator_data q))
   \<and> (r \<in> set (lower (elevator_data (step q c))) \<longrightarrow>
        r \<in> set (lower (elevator_data q))
        \<or> (c = Insert r \<and> blk_rq_pos r < prev_pos (elevator_data q)))
   \<and> (r \<in> set (higher (elevator_data (step q c))) \<longrightarrow>
        r \<in> set (higher (elevator_data q))
        \<or> (c = Insert r \<and> \<not> blk_rq_pos r < prev_pos (elevator_data q)))
   \<and> ((\<forall>t. dispatch_target (elevator_data q) = Some t \<longrightarrow> rq_id t \<noteq> rq_id r) \<longrightarrow>
        (r \<in> set (higher (elevator_data q)) \<longrightarrow>
           r \<in> set (higher (elevator_data (step q (Dispatch force)))))
        \<and> (r \<in> set (lower (elevator_data q)) \<longrightarrow>
           r \<in> set (lower (elevator_data (step q (Dispatch force))))))"
  using set_lower_step [of r q c] set_higher_step [of r q c] dispatch_keeps_others [of q r force]
  by (simp add: higher_add_request lower_add_request set_list_add)

theorem membership_decided_at_insert_witness:
  "blk_rq_pos (rq_at 1 10) < prev_pos (elevator_data (idle_at 50))
   \<and> set (lower (elevator_data (greedy_add_request (idle_at 50) (rq_at 1 10)))) = {rq_at 1 10}
   \<and> higher (elevator_data (greedy_add_request (idle_at 50) (rq_at 1 10))) = []
   \<and> \<not> blk_rq_pos (rq_at 2 80) < prev_pos (elevator_data (idle_at 50))
   \<and> set (higher (elevator_data (greedy_add_request (idle_at 50) (rq_at 2 80)))) = {rq_at 2 80}
   \<and> dispatch_target
        (elevator_data (foldl step (idle_at 50) [Insert (rq_at 1 70), Insert (rq_at 2 60)]))
     = Some (rq_at 1 70)
   \<and> rq_at 2 60
       \<in> set (higher
            (elevator_data (foldl step (idle_at 50) [Insert (rq_at 1 70), Insert (rq_at 2 60)])))
   \<and> rq_at 2 60
       \<in> set (higher
            (elevator_data
               (step (foldl step (idle_at 50) [Insert (rq_at 1 70), Insert (rq_at 2 60)])
                  (Dispatch 0))))"
  using membership_decided_at_insert
      [of "rq_at 1 10" "idle_at 50" "rq_at 1 10" "Insert (rq_at 1 10)" 0]
    membership_decided_at_insert
      [of "rq_at 2 80" "idle_at 50" "rq_at 2 80" "Insert (rq_at 2 80)" 0]
    membership_decided_at_insert
      [of "rq_at 2 60" "foldl step (idle_at 50) [Insert (rq_at 1 70), Insert (rq_at 2 60)]"
          "rq_at 2 60" "Dispatch 0" 0]
  by (simp add: idle_at_def rq_at_def greedy_defs)

text \<open>
  C5. Only Dispatch changes the last position. Insert, MergeRemove and the two
  neighbour queries leave it as it was, and so does a Dispatch that finds both queues
  empty and returns 0. A Dispatch that returns 1 has appended the selected request to
  the dispatch list and set the last position to that request's end sector, its start
  plus its length in 64-bit arithmetic.
\<close>

theorem prev_pos_changed_by_dispatch_only:
  "prev_pos (elevator_data (greedy_add_request q rq)) = prev_pos (elevator_data q)
   \<and> prev_pos (elevator_data (greedy_merged_requests q rq nxt)) = prev_pos (elevator_data q)
   \<and> snd (greedy_former_request q rq) = q
   \<and> snd (greedy_latter_request q rq) = q
   \<and> (fst (greedy_dispatch q force) = 0 \<or> fst (greedy_dispatch q force) = 1)
   \<and> (fst (greedy_dispatch q force) = 0 \<longrightarrow> snd (greedy_dispatch q force) = q)
   \<and> (fst (greedy_dispatch q force) = 1 \<longrightarrow>
        (\<exists>t. dispatch_target (elevator_data q) = Some t
           \<and> queue_head (snd (greedy_dispatch q force)) = queue_head q @ [t]
           \<and> prev_pos (elevator_data (snd (greedy_dispatch q force))) = rq_end_sector t
           \<and> unat (rq_end_sector t)
               = (unat (start_sector t) + unat (length_sectors t)) mod 2 ^ 64))"
proof (cases "dispatch_target (elevator_data q)")
  case None
  then show ?thesis
    by (simp add: greedy_dispatch_None prev_pos_add_request snd_former snd_latter
        greedy_merged_requests_def Let_def)
next
  case (Some t)
  then show ?thesis
    by (simp add: greedy_dispatch_Some prev_pos_add_request snd_former snd_latter
        greedy_merged_requests_def Let_def unat_rq_end_sector)
qed

theorem prev_pos_changed_by_dispatch_only_witness:
  "fst (greedy_dispatch fresh_queue 0) = 0
   \<and> snd (greedy_dispatch fresh_queue 0) = fresh_queue
   \<and> fst (greedy_dispatch (greedy_add_request fresh_queue (rq_at 1 10)) 0) = 1
   \<and> queue_head (snd (greedy_dispatch (greedy_add_request fresh_queue (rq_at 1 10)) 0))
     = [rq_at 1 10]
   \<and> prev_pos
        (elevator_data (snd (greedy_dispatch (greedy_add_request fresh_queue (rq_at 1 10)) 0)))
     = 11"
  using prev_pos_changed_by_dispatch_only [of fresh_queue "rq_at 1 10" "rq_at 1 10" 0]
    prev_pos_changed_by_dispatch_only
      [of "greedy_add_request fresh_queue (rq_at 1 10)" "rq_at 1 10" "rq_at 1 10" 0]
  by (simp add: fresh_queue_def rq_at_def greedy_defs)

text \<open>
  C6. Scenario B: with the last position at 50, a request at sector 10 goes to the
  Lower queue and a request at sector 80 to the Higher queue. The first Dispatch
  compares an \<open>up_distance\<close> of 30 with a \<open>down_distance\<close> of 40 and returns the
  request at 80; the second returns the request at 10. This holds for any two distinct
  requests with these start sectors, whatever their lengths and whatever was dispatched
  before.
\<close>

theorem scenario_b:
  assumes "ia \<noteq> ib"
  shows
    "let a = \<lparr>rq_id = ia, start_sector = 10, length_sectors = na\<rparr>;
         b = \<lparr>rq_id = ib, start_sector = 80, length_sectors = nb\<rparr>;
         q0 = \<lparr>elevator_data = \<lparr>higher = [], lower = [], prev_pos = 50\<rparr>, queue_head = dq\<rparr>;
         q2 = greedy_add_request (greedy_add_request q0 a) b;
         d1 = greedy_dispatch q2 f1;
         d2 = greedy_dispatch (snd d1) f2
     in lower (elevator_data q2) = [a] \<and> higher (elevator_data q2) = [b]
        \<and> up_dist b (elevator_data q2) = 30 \<and> down_dist a (elevator_data q2) = 40
        \<and> fst d1 = 1 \<and> queue_head (snd d1) = dq @ [b]
        \<and> fst d2 = 1 \<and> queue_head (snd d2) = dq @ [b, a]"
  using assms by (simp add: Let_def greedy_defs word_sless_alt)

theorem scenario_b_witness:
  "(1::nat) \<noteq> 2
   \<and> queue_head
        (snd (greedy_dispatch
           (snd (greedy_dispatch
              (greedy_add_request (greedy_add_request (idle_at 50) (rq_at 1 10)) (rq_at 2 80)) 0)) 0))
     = [rq_at 2 80, rq_at 1 10]"
  using scenario_b [of 1 2 1 1 "[]" 0 0]
  by (simp add: Let_def idle_at_def rq_at_def)

text \<open>
  C7. Scenario C: two requests A and B of length 1, both at sector 10, are inserted in
  that order into a fresh scheduler and B is then merged away. One Dispatch returns A
  and leaves both queues empty; the next Dispatch returns 0 and changes nothing.
\<close>

theorem scenario_c:
  assumes "ia \<noteq> ib"
  shows
    "let a = rq_at ia 10; b = rq_at ib 10;
         q2 = greedy_add_request (greedy_add_request fresh_queue a) b;
         q3 = greedy_merged_requests q2 rq b;
         d1 = greedy_dispatch q3 f1;
         d2 = greedy_dispatch (snd d1) f2
     in higher (elevator_data q3) = [a] \<and> lower (elevator_data q3) = []
        \<and> fst d1 = 1 \<and> queue_head (snd d1) = [a]
        \<and> higher (elevator_data (snd d1)) = [] \<and> lower (elevator_data (snd d1)) = []
        \<and> d2 = (0, snd d1)"
  using assms by (simp add: Let_def greedy_defs fresh_queue_def rq_at_def)

theorem scenario_c_witness:
  "(1::nat) \<noteq> 2
   \<and> greedy_dispatch
        (greedy_merged_requests
           (greedy_add_request (greedy_add_request fresh_queue (rq_at 1 10)) (rq_at 2 10))
           (rq_at 1 10) (rq_at 2 10)) 0
     = (1, \<lparr>elevator_data = \<lparr>higher = [], lower = [], prev_pos = 11\<rparr>,
            queue_head = [rq_at 1 10]\<rparr>)
   \<and> fst (greedy_dispatch
        \<lparr>elevator_data = \<lparr>higher = [], lower = [], prev_pos = 11\<rparr>,
          queue_head = [rq_at 1 10]\<rparr> 0) = 0"
  using scenario_c [of 1 2 "rq_at 1 10" 0 0]
  by (simp add: Let_def greedy_defs fresh_queue_def rq_at_def)

text \<open>
  C8. Teardown succeeds when both queues are empty and stops on a failed assertion
  when the Higher queue, the Lower queue or both still hold a request.
\<close>

theorem exit_queue_asserts_empty:
  "(higher gd = [] \<and> lower gd = [] \<longrightarrow> greedy_exit_queue gd = Inr ())
   \<and> (higher gd \<noteq> [] \<or> lower gd \<noteq> [] \<longrightarrow> greedy_exit_queue gd = Inl BUG)"
  by (simp add: greedy_exit_queue_def list_empty_def)

theorem exit_queue_asserts_empty_witness:
  "greedy_exit_queue \<lparr>higher = [], lower = [], prev_pos = 7\<rparr> = Inr ()
   \<and> greedy_exit_queue \<lparr>higher = [rq_at 1 10], lower = [], prev_pos = 7\<rparr> = Inl BUG
   \<and> greedy_exit_queue \<lparr>higher = [], lower = [rq_at 2 5], prev_pos = 7\<rparr> = Inl BUG
   \<and> greedy_exit_queue \<lparr>higher = [rq_at 1 10], lower = [rq_at 2 5], prev_pos = 7\<rparr> = Inl BUG"
  using exit_queue_asserts_empty [of "\<lparr>higher = [], lower = [], prev_pos = 7\<rparr>"]
    exit_queue_asserts_empty [of "\<lparr>higher = [rq_at 1 10], lower = [], prev_pos = 7\<rparr>"]
    exit_queue_asserts_empty [of "\<lparr>higher = [], lower = [rq_at 2 5], prev_pos = 7\<rparr>"]
    exit_queue_asserts_empty [of "\<lparr>higher = [rq_at 1 10], lower = [rq_at 2 5], prev_pos = 7\<rparr>"]
  by simp

text \<open>
  C9. The \<^verbatim>\<open>force\<close> argument of Dispatch changes neither the returned value nor the
  state that results, in any state.
\<close>

theorem dispatch_ignores_force: "greedy_dispatch q force = greedy_dispatch q force'"
  by (simp add: greedy_dispatch_def)

text \<open>
  C10. For a request held at position \<open>i\<close> of one of the two queues, Former returns the
  request at position \<open>i - 1\<close>, or nothing at the front, and Latter returns the request
  at position \<open>i + 1\<close>, or nothing at the back; both return the queue as they found it.
\<close>

theorem neighbour_queries:
  assumes "well_linked (elevator_data q)"
    and "xs = higher (elevator_data q) \<or> xs = lower (elevator_data q)"
    and "i < length xs"
    and "rq_id rq = rq_id (xs ! i)"
  shows "greedy_former_request q rq = (Inr (if i = 0 then None else Some (xs ! (i - 1))), q)
       \<and> greedy_latter_request q rq =
           (Inr (if Suc i = length xs then None else Some (xs ! Suc i)), q)"
proof -
  from assms(1) have dh: "distinct (map rq_id (higher (elevator_data q)))"
    and dl: "distinct (map rq_id (lower (elevator_data q)))"
    and disj: "rq_id ` set (higher (elevator_data q)) \<inter> rq_id ` set (lower (elevator_data q)) = {}"
    by (simp_all add: well_linked_def)
  from assms(2) show ?thesis
  proof
    assume xs: "xs = higher (elevator_data q)"
    with assms(3,4) dh show ?thesis
      by (simp add: former_in_higher latter_in_higher)
  next
    assume xs: "xs = lower (elevator_data q)"
    with assms(3,4) have "rq_id rq \<in> rq_id ` set (lower (elevator_data q))"
      by (metis imageI nth_mem)
    with disj have "rq_id rq \<notin> rq_id ` set (higher (elevator_data q))" by blast
    with xs assms(3,4) dl show ?thesis
      by (simp add: former_in_lower latter_in_lower)
  qed
qed

theorem neighbour_queries_witness:
  "well_linked (elevator_data scenario_a)
   \<and> higher (elevator_data scenario_a) = [rq_at 3 500, rq_at 4 10, rq_at 1 100, rq_at 2 50]
   \<and> greedy_former_request scenario_a (rq_at 4 10) = (Inr (Some (rq_at 3 500)), scenario_a)
   \<and> greedy_latter_request scenario_a (rq_at 4 10) = (Inr (Some (rq_at 1 100)), scenario_a)
   \<and> greedy_former_request scenario_a (rq_at 3 500) = (Inr None, scenario_a)
   \<and> greedy_latter_request scenario_a (rq_at 2 50) = (Inr None, scenario_a)"
proof -
  have s: "elevator_data scenario_a =
      \<lparr>higher = [rq_at 3 500, rq_at 4 10, rq_at 1 100, rq_at 2 50], lower = [], prev_pos = 0\<rparr>"
    by (simp add: scenario_a_def fresh_queue_def rq_at_def greedy_defs)
  have w: "well_linked (elevator_data scenario_a)"
    by (simp add: s well_linked_def rq_at_def)
  have x: "higher (elevator_data scenario_a) = higher (elevator_data scenario_a)
           \<or> higher (elevator_data scenario_a) = lower (elevator_data scenario_a)"
    by simp
  show ?thesis
    using neighbour_queries [OF w x, of 1 "rq_at 4 10"]
      neighbour_queries [OF w x, of 0 "rq_at 3 500"]
      neighbour_queries [OF w x, of 3 "rq_at 2 50"] w
    by (simp add: s)
qed

end
